theory Spec2Isabelle
  imports Complex_Main "HOL-Library.Multiset" "HOL-Library.Log_Nat"
begin

section \<open>Data model (quizLit.py, lines 15-60)\<close>

text \<open>
  \<^verbatim>\<open>class Config\<close>: the share of specific questions and the two performance thresholds.
  The ratio \<^verbatim>\<open>0.6\<close> and the product \<^verbatim>\<open>total_questions * 0.6\<close> of line 110 are taken in
  exact rational arithmetic: the double-precision product differs from it by rounding
  only and truncates to the same integer for all totals below \<open>2 ^ 40\<close>. The percentage
  of the scorer is computed in doubles, as the source does.
\<close>

definition SPECIFIC_QUESTIONS_RATIO :: rat where
  "SPECIFIC_QUESTIONS_RATIO = 6 / 10"

definition EXCELLENT_THRESHOLD :: rat where
  "EXCELLENT_THRESHOLD = 70"

definition GOOD_THRESHOLD :: rat where
  "GOOD_THRESHOLD = 50"

text \<open>\<^verbatim>\<open>@dataclass class Question\<close>; the field \<^verbatim>\<open>id\<close> is named \<open>id_q\<close> here.\<close>

record question =
  id_q :: int
  numero :: int
  enunciado :: string
  alternativa_a :: string
  alternativa_b :: string
  alternativa_c :: string
  alternativa_d :: string
  fonte :: string
  gabarito :: string

datatype PerformanceLevel = EXCELLENT | GOOD | NEEDS_IMPROVEMENT

section \<open>Python primitives used by the program\<close>

text \<open>\<^verbatim>\<open>int(x)\<close> on a number: truncation towards zero.\<close>

definition py_int :: "rat \<Rightarrow> int" where
  "py_int x = (if 0 \<le> x then \<lfloor>x\<rfloor> else \<lceil>x\<rceil>)"

text \<open>
  The slice \<^verbatim>\<open>xs[:k]\<close>: the first \<open>k\<close> elements, all of \<open>xs\<close> when it is shorter;
  a negative \<open>k\<close> counts from the end (all but the last \<open>-k\<close> elements).
\<close>

definition py_take :: "int \<Rightarrow> 'a list \<Rightarrow> 'a list" where
  "py_take k xs = (if 0 \<le> k then take (nat k) xs else take (length xs - nat (- k)) xs)"

text \<open>Exceptions the modelled code can raise.\<close>

datatype py_error = IndexError | OverflowError | ZeroDivisionError

text \<open>
  Double-precision numbers are the rationals on the binary64 grid, with the two
  infinities; the sign of zero is not kept and no operation below produces a NaN.
  \<open>ilog2 x\<close> is the binary exponent of a positive \<open>x\<close> (\<open>2 ^ e \<le> x < 2 ^ (e + 1)\<close>),
  computed from the bit lengths of numerator and denominator.
\<close>

definition ilog2 :: "rat \<Rightarrow> int" where
  "ilog2 x =
     (case quotient_of x of
        (p, q) \<Rightarrow> (let e = bitlen p - bitlen q in if x < 2 powi e then e - 1 else e))"

text \<open>Rounding to the nearest integer, a tie going to the even one.\<close>

definition round_half_even :: "rat \<Rightarrow> int" where
  "round_half_even z =
     (let n = \<lfloor>z\<rfloor>; d = z - of_int n
      in if d < 1 / 2 then n else if 1 / 2 < d then n + 1 else if even n then n else n + 1)"

text \<open>
  The spacing of the doubles around \<open>x\<close>: 53 significant bits, and the fixed spacing
  \<open>2 ^ - 1074\<close> of the subnormal numbers below \<open>2 ^ - 1022\<close>. \<open>round_binary64\<close> rounds
  to the nearest point of that grid, with no bound on the exponent.
\<close>

definition quantum :: "rat \<Rightarrow> rat" where
  "quantum x = 2 powi (max (ilog2 \<bar>x\<bar>) (- 1022) - 52)"

definition round_binary64 :: "rat \<Rightarrow> rat" where
  "round_binary64 x =
     (if x = 0 then 0 else of_int (round_half_even (x / quantum x)) * quantum x)"

datatype pyfloat = Finite rat | PosInf | NegInf

text \<open>
  \<^verbatim>\<open>a / b\<close> on two integers: the quotient rounded once to the nearest double;
  \<^verbatim>\<open>ZeroDivisionError\<close> for a zero divisor and \<^verbatim>\<open>OverflowError\<close> when the rounded quotient
  is beyond the largest double.
\<close>

definition int_true_div :: "int \<Rightarrow> int \<Rightarrow> py_error + rat" where
  "int_true_div a b =
     (if b = 0 then Inl ZeroDivisionError
      else (let r = round_binary64 (of_int a / of_int b)
            in if 2 powi 1024 \<le> \<bar>r\<bar> then Inl OverflowError else Inr r))"

text \<open>
  \<^verbatim>\<open>x * y\<close> on two finite doubles: the product rounded to the nearest double, an
  infinity when that is beyond the largest double (no exception is raised).
\<close>

definition float_mul :: "rat \<Rightarrow> rat \<Rightarrow> pyfloat" where
  "float_mul x y =
     (let r = round_binary64 (x * y)
      in if 2 powi 1024 \<le> r then PosInf else if r \<le> - (2 powi 1024) then NegInf else Finite r)"

text \<open>\<^verbatim>\<open>x >= t\<close> for a double and an integer threshold.\<close>

fun float_ge :: "pyfloat \<Rightarrow> rat \<Rightarrow> bool" where
  "float_ge (Finite r) t = (t \<le> r)"
| "float_ge PosInf t = True"
| "float_ge NegInf t = False"

text \<open>
  The global random generator is an explicit value threaded through the calls: the
  infinite stream of its future draws. \<^verbatim>\<open>randbelow(n)\<close> consumes one draw and reduces
  it to \<open>{0..<n}\<close>.
\<close>

type_synonym rng = "nat \<Rightarrow> nat"

definition randbelow :: "rng \<Rightarrow> nat \<Rightarrow> nat \<times> rng" where
  "randbelow g n = (g 0 mod n, \<lambda>i. g (Suc i))"

text \<open>
  \<^verbatim>\<open>random.shuffle(x)\<close> of the standard library, which permutes the list in place:
  \<^verbatim>\<open>
  for i in reversed(range(1, len(x))):
      j = randbelow(i + 1)
      x[i], x[j] = x[j], x[i]
  \<close>
  \<open>shuffle_loop i\<close> runs the iterations for the indices \<open>i, i - 1, ..., 1\<close>. The model
  returns the permuted list with the generator left behind.
\<close>

fun shuffle_loop :: "nat \<Rightarrow> 'a list \<Rightarrow> rng \<Rightarrow> 'a list \<times> rng" where
  "shuffle_loop 0 xs g = (xs, g)"
| "shuffle_loop (Suc k) xs g =
     (case randbelow g (Suc k + 1) of
        (j, g') \<Rightarrow> shuffle_loop k (xs[Suc k := xs ! j, j := xs ! Suc k]) g')"

definition shuffle :: "'a list \<Rightarrow> rng \<Rightarrow> 'a list \<times> rng" where
  "shuffle xs g = shuffle_loop (length xs - 1) xs g"

section \<open>Question selection (\<^verbatim>\<open>QuestionManager.prepare_questions\<close>, lines 97-126)\<close>

text \<open>Messages the program shows with \<^verbatim>\<open>st.error\<close>.\<close>

datatype ui_error =
    NoQuestionsFound \<comment> \<open>line 103: no question found in the databases\<close>
  | CouldNotLoadQuestions \<comment> \<open>line 195: the questions could not be loaded\<close>

text \<open>Line 110: \<^verbatim>\<open>int(total_questions * Config.SPECIFIC_QUESTIONS_RATIO)\<close>.\<close>

definition num_specific :: "int \<Rightarrow> int" where
  "num_specific total_questions = py_int (of_int total_questions * SPECIFIC_QUESTIONS_RATIO)"

text \<open>
  Lines 107-117, the ratio-based draw. The two pools as loaded from the databases are
  parameters. The result is \<open>(available_questions, specific_questions, general_questions, g)\<close>:
  the partial selection, the two pools as the in-place shuffles left them, and the
  generator.
\<close>

definition ratio_draw ::
  "int \<Rightarrow> question list \<Rightarrow> question list \<Rightarrow> rng \<Rightarrow>
     question list \<times> question list \<times> question list \<times> rng" where
  "ratio_draw total_questions specific_questions general_questions g =
     (case (if specific_questions \<noteq> []
            then (case shuffle specific_questions g of
                    (sp, g1) \<Rightarrow> (py_take (num_specific total_questions) sp, sp, g1))
            else ([], specific_questions, g)) of
        (av1, sp, g1) \<Rightarrow>
          (if general_questions \<noteq> []
           then (case shuffle general_questions g1 of
                   (ge, g2) \<Rightarrow>
                     (let num_general = total_questions - int (length av1)
                      in (if 0 < num_general then av1 @ py_take num_general ge else av1,
                          sp, ge, g2)))
           else (av1, sp, general_questions, g1)))"

text \<open>
  The whole function: \<open>(questions, generator, messages shown)\<close>. Lines 102-104 return
  early when both pools are empty; lines 120-123 fall back to the concatenation of the
  two pools; line 125 shuffles whatever was selected.
\<close>

definition prepare_questions ::
  "int \<Rightarrow> question list \<Rightarrow> question list \<Rightarrow> rng \<Rightarrow> question list \<times> rng \<times> ui_error list" where
  "prepare_questions total_questions specific_questions general_questions g =
     (if specific_questions = [] \<and> general_questions = []
      then ([], g, [NoQuestionsFound])
      else
        (case ratio_draw total_questions specific_questions general_questions g of
           (av, sp, ge, g2) \<Rightarrow>
             (case (if int (length av) < total_questions
                    then (case shuffle (sp @ ge) g2 of
                            (all_questions, g3) \<Rightarrow> (py_take total_questions all_questions, g3))
                    else (av, g2)) of
                (av', g3) \<Rightarrow>
                  (case shuffle av' g3 of (res, g4) \<Rightarrow> (res, g4, [])))))"


section \<open>Scoring (\<^verbatim>\<open>PerformanceEvaluator.evaluate_performance\<close>, lines 133-150)\<close>

text \<open>The four texts the scorer can return, in the order of the source.\<close>

datatype message =
    NoQuestionAnswered \<comment> \<open>line 136, returned when the total is zero\<close>
  | ExcellentMessage \<comment> \<open>line 142\<close>
  | GoodMessage \<comment> \<open>line 145\<close>
  | KeepStudyingMessage \<comment> \<open>line 148\<close>

text \<open>
  The result is the triple of the source, or the exception of the division of line 138;
  \<^verbatim>\<open>(correct_answers / total_questions) * 100\<close> is an integer division rounded to a
  double, then a product of doubles.
\<close>

definition evaluate_performance ::
  "int \<Rightarrow> int \<Rightarrow> py_error + pyfloat \<times> PerformanceLevel \<times> message" where
  "evaluate_performance correct_answers total_questions =
     (if total_questions = 0 then Inr (Finite 0, NEEDS_IMPROVEMENT, NoQuestionAnswered)
      else
        (case int_true_div correct_answers total_questions of
           Inl e \<Rightarrow> Inl e
         | Inr fraction \<Rightarrow>
             (let percentage = float_mul fraction 100
              in if float_ge percentage EXCELLENT_THRESHOLD
                 then Inr (percentage, EXCELLENT, ExcellentMessage)
                 else if float_ge percentage GOOD_THRESHOLD
                 then Inr (percentage, GOOD, GoodMessage)
                 else Inr (percentage, NEEDS_IMPROVEMENT, KeepStudyingMessage))))"

section \<open>Session state and its four operations (lines 154-240)\<close>

text \<open>One entry of \<^verbatim>\<open>st.session_state.user_answers\<close> (the dictionary of lines 220-225).\<close>

record answer_record =
  question :: question
  user_answer :: string
  correct_answer :: string
  is_correct :: bool

text \<open>The keys of \<^verbatim>\<open>st.session_state\<close>, in the order of lines 156-173.\<close>

record session_state =
  quiz_started :: bool
  questions :: "question list"
  current_question :: int
  correct_answers :: int
  user_answers :: "answer_record list"
  quiz_finished :: bool
  question_answered :: bool
  last_user_answer :: "string option"
  last_answer_correct :: "bool option"

text \<open>The state \<^verbatim>\<open>initialize_session_state\<close> sets up in a fresh session.\<close>

definition initialize_session_state :: session_state where
  "initialize_session_state =
     \<lparr>quiz_started = False, questions = [], current_question = 0, correct_answers = 0,
      user_answers = [], quiz_finished = False, question_answered = False,
      last_user_answer = None, last_answer_correct = None\<rparr>"

definition reset_quiz :: "session_state \<Rightarrow> session_state" where
  "reset_quiz s =
     s\<lparr>quiz_started := False, questions := [], current_question := 0, correct_answers := 0,
       user_answers := [], quiz_finished := False, question_answered := False,
       last_user_answer := None, last_answer_correct := None\<rparr>"

text \<open>
  \<^verbatim>\<open>start_quiz\<close> returns the session state with the messages shown to the user. When
  the selection is empty it shows a message and returns before touching the state.
\<close>

definition start_quiz ::
  "int \<Rightarrow> question list \<Rightarrow> question list \<Rightarrow> rng \<Rightarrow> session_state \<Rightarrow>
     session_state \<times> ui_error list" where
  "start_quiz total_questions specific_questions general_questions g s =
     (case prepare_questions total_questions specific_questions general_questions g of
        (qs, g', shown) \<Rightarrow>
          if qs = [] then (s, shown @ [CouldNotLoadQuestions])
          else
            (s\<lparr>questions := qs, quiz_started := True, current_question := 0,
               correct_answers := 0, user_answers := [], quiz_finished := False,
               question_answered := False, last_user_answer := None,
               last_answer_correct := None\<rparr>, shown))"

text \<open>
  List indexing \<^verbatim>\<open>xs[i]\<close> with an integer: a negative index counts from the end, an
  index out of range raises \<^verbatim>\<open>IndexError\<close>.
\<close>

definition py_index :: "'a list \<Rightarrow> int \<Rightarrow> py_error + 'a" where
  "py_index xs i =
     (if 0 \<le> i \<and> i < int (length xs) then Inr (xs ! nat i)
      else if i < 0 \<and> - int (length xs) \<le> i then Inr (xs ! nat (int (length xs) + i))
      else Inl IndexError)"

text \<open>
  \<^verbatim>\<open>answer_question\<close>: the guard of line 211 returns at once; the lookup of line 214
  can raise, before any key of the state is written. The local \<^verbatim>\<open>is_correct\<close> is
  named \<open>correct\<close>.
\<close>

definition answer_question :: "string \<Rightarrow> session_state \<Rightarrow> py_error + session_state" where
  "answer_question selected_answer s =
     (if quiz_finished s \<or> question_answered s then Inr s
      else
        (case py_index (questions s) (current_question s) of
           Inl e \<Rightarrow> Inl e
         | Inr current_q \<Rightarrow>
             (let correct = (selected_answer = gabarito current_q)
              in Inr (s\<lparr>correct_answers :=
                           (if correct then correct_answers s + 1 else correct_answers s),
                         user_answers := user_answers s @
                           [\<lparr>question = current_q, user_answer = selected_answer,
                             correct_answer = gabarito current_q, is_correct = correct\<rparr>],
                         question_answered := True,
                         last_user_answer := Some selected_answer,
                         last_answer_correct := Some correct\<rparr>))))"

definition next_question :: "session_state \<Rightarrow> session_state" where
  "next_question s =
     (let s1 = s\<lparr>current_question := current_question s + 1, question_answered := False,
                 last_user_answer := None, last_answer_correct := None\<rparr>
      in if int (length (questions s1)) \<le> current_question s1
         then s1\<lparr>quiz_finished := True\<rparr> else s1)"

text \<open>
  A session is a sequence of calls of the four operations, each with its arguments;
  \<^verbatim>\<open>start_quiz\<close> comes with the contents of the two databases and the generator at the
  time of the call. A call of \<^verbatim>\<open>answer_question\<close> that raises leaves the state as it
  was, since nothing has been written yet.
\<close>

datatype event =
    StartQuiz int "question list" "question list" rng
  | AnswerQuestion string
  | NextQuestion
  | ResetQuiz

fun apply_event :: "session_state \<Rightarrow> event \<Rightarrow> session_state" where
  "apply_event s (StartQuiz n sp ge g) = fst (start_quiz n sp ge g s)"
| "apply_event s (AnswerQuestion a) =
     (case answer_question a s of Inl e \<Rightarrow> s | Inr s' \<Rightarrow> s')"
| "apply_event s NextQuestion = next_question s"
| "apply_event s ResetQuiz = reset_quiz s"

definition run :: "event list \<Rightarrow> session_state" where
  "run evs = foldl apply_event initialize_session_state evs"

section \<open>Invariants of the session state\<close>

text \<open>The position index stays inside the question list while a quiz is running.\<close>

definition position_ok :: "session_state \<Rightarrow> bool" where
  "position_ok s \<longleftrightarrow>
     0 \<le> current_question s \<and>
     (quiz_started s \<and> \<not> quiz_finished s \<longrightarrow> current_question s < int (length (questions s)))"

text \<open>The counter agrees with the answer log, and every record is marked as it should.\<close>

definition log_ok :: "session_state \<Rightarrow> bool" where
  "log_ok s \<longleftrightarrow>
     correct_answers s = int (length (filter is_correct (user_answers s))) \<and>
     (\<forall>r \<in> set (user_answers s).
        is_correct r = (user_answer r = gabarito (question r)) \<and>
        correct_answer r = gabarito (question r))"

section \<open>Sample data for the concrete instances\<close>

definition sample_question :: "int \<Rightarrow> string \<Rightarrow> question" where
  "sample_question i key =
     \<lparr>id_q = i, numero = i, enunciado = ''text'', alternativa_a = ''A'', alternativa_b = ''B'',
      alternativa_c = ''C'', alternativa_d = ''D'', fonte = ''source'', gabarito = key\<rparr>"

text \<open>A generator whose draws are 0, 1, 2, ...\<close>

definition ascending_draws :: rng where
  "ascending_draws = (\<lambda>i. i)"

definition sample_specific :: "question list" where
  "sample_specific = [sample_question 1 ''a'', sample_question 2 ''b'', sample_question 3 ''c'']"

definition sample_general :: "question list" where
  "sample_general = [sample_question 101 ''d'', sample_question 102 ''a'']"



definition sample_start :: event where
  "sample_start = StartQuiz 5 sample_specific sample_general ascending_draws"

text \<open>
  With these pools and draws the quiz has the answer keys b, d, a, c, a. The session
  answers the first question correctly, tries to answer it again, moves on and answers
  the second question with a capital letter.
\<close>

definition sample_session :: "event list" where
  "sample_session =
     [sample_start, AnswerQuestion ''b'', AnswerQuestion ''c'', NextQuestion,
      AnswerQuestion ''D'']"

section \<open>Facts about the primitives\<close>

lemma shuffle_loop_length: "length (fst (shuffle_loop k xs g)) = length xs"
  by (induction k arbitrary: xs g) (simp_all add: randbelow_def)

lemma shuffle_loop_mset:
  "k < length xs \<Longrightarrow> mset (fst (shuffle_loop k xs g)) = mset xs"
proof (induction k arbitrary: xs g)
  case 0
  then show ?case by simp
next
  case (Suc k)
  let ?j = "g 0 mod (Suc k + 1)"
  let ?ys = "xs[Suc k := xs ! ?j, ?j := xs ! Suc k]"
  have j: "?j < length xs"
  proof -
    have "?j < Suc k + 1" by simp
    with Suc.prems show ?thesis by linarith
  qed
  have "mset ?ys = mset xs"
    using mset_swap [OF j Suc.prems] .
  moreover have "k < length ?ys"
    using Suc.prems by simp
  ultimately show ?case
    using Suc.IH [of ?ys] by (simp add: randbelow_def)
qed

lemma shuffle_mset: "mset (fst (shuffle xs g)) = mset xs"
proof (cases xs)
  case Nil
  then show ?thesis by (simp add: shuffle_def)
next
  case (Cons x ys)
  then show ?thesis by (simp add: shuffle_def shuffle_loop_mset)
qed

lemma shuffle_length: "length (fst (shuffle xs g)) = length xs"
  by (simp add: shuffle_def shuffle_loop_length)

lemma shuffle_set: "set (fst (shuffle xs g)) = set xs"
  using shuffle_mset [of xs g] by (metis set_mset_mset)

lemma num_specific_nonneg: "0 \<le> N \<Longrightarrow> num_specific N = (3 * N) div 5"
proof -
  assume N: "0 \<le> N"
  have e: "(of_int N * (6 / 10) :: rat) = of_int (3 * N) / of_int 5" by simp
  have "\<lfloor>of_int N * (6 / 10) :: rat\<rfloor> = (3 * N) div 5"
    unfolding e by (rule floor_divide_of_int_eq)
  moreover have "(0::rat) \<le> of_int N * (6 / 10)" using N by simp
  ultimately show ?thesis
    by (simp add: num_specific_def py_int_def SPECIFIC_QUESTIONS_RATIO_def)
qed

lemma mset_take_subseteq: "mset (take n xs) \<subseteq># mset xs"
  by (metis append_take_drop_id mset_append mset_subset_eq_add_left)

lemma py_take_subseteq: "mset (py_take k xs) \<subseteq># mset xs"
  by (simp add: py_take_def mset_take_subseteq)

lemma py_take_length_nonneg: "0 \<le> k \<Longrightarrow> length (py_take k xs) = min (nat k) (length xs)"
  by (simp add: py_take_def)

lemma num_specific_le: "0 \<le> N \<Longrightarrow> num_specific N \<le> N \<and> 0 \<le> num_specific N"
  by (simp add: num_specific_nonneg) linarith

lemma shuffle_Nil: "shuffle [] g = ([], g)"
  by (simp add: shuffle_def)

lemma py_take_Nil: "py_take k [] = []"
  by (simp add: py_take_def)

lemma ratio_draw_eq:
  "ratio_draw N S G g =
     (let sp = fst (shuffle S g); g1 = snd (shuffle S g);
          av1 = py_take (num_specific N) sp;
          ge = fst (shuffle G g1); g2 = snd (shuffle G g1)
      in (if 0 < N - int (length av1) then av1 @ py_take (N - int (length av1)) ge else av1,
          sp, ge, g2))"
proof (cases "S = []")
  case True
  show ?thesis
  proof (cases "G = []")
    case True
    with \<open>S = []\<close> show ?thesis
      by (simp add: ratio_draw_def shuffle_Nil py_take_Nil)
  next
    case False
    with \<open>S = []\<close> show ?thesis
      by (simp add: ratio_draw_def shuffle_Nil py_take_Nil Let_def split: prod.splits)
  qed
next
  case False
  show ?thesis
  proof (cases "G = []")
    case True
    with \<open>S \<noteq> []\<close> show ?thesis
      by (simp add: ratio_draw_def shuffle_Nil py_take_Nil Let_def split: prod.splits)
  next
    case False
    with \<open>S \<noteq> []\<close> show ?thesis
      by (simp add: ratio_draw_def Let_def split: prod.splits)
  qed
qed

lemma ratio_draw_sp: "fst (snd (ratio_draw N S G g)) = fst (shuffle S g)"
  by (simp add: ratio_draw_eq Let_def)

lemma ratio_draw_ge:
  "fst (snd (snd (ratio_draw N S G g))) = fst (shuffle G (snd (shuffle S g)))"
  by (simp add: ratio_draw_eq Let_def)

lemma ratio_draw_av:
  "fst (ratio_draw N S G g) =
     (if 0 < N - int (length (py_take (num_specific N) (fst (shuffle S g))))
      then py_take (num_specific N) (fst (shuffle S g)) @
           py_take (N - int (length (py_take (num_specific N) (fst (shuffle S g)))))
             (fst (shuffle G (snd (shuffle S g))))
      else py_take (num_specific N) (fst (shuffle S g)))"
  by (simp add: ratio_draw_eq Let_def)

lemma ratio_draw_subseteq: "mset (fst (ratio_draw N S G g)) \<subseteq># mset S + mset G"
proof -
  let ?sp = "fst (shuffle S g)"
  let ?av1 = "py_take (num_specific N) ?sp"
  let ?ge = "fst (shuffle G (snd (shuffle S g)))"
  have 1: "mset ?av1 \<subseteq># mset S"
    using py_take_subseteq [of "num_specific N" ?sp] by (simp add: shuffle_mset)
  have 2: "mset (py_take k ?ge) \<subseteq># mset G" for k
    using py_take_subseteq [of k ?ge] by (simp add: shuffle_mset)
  show ?thesis
  proof (cases "0 < N - int (length ?av1)")
    case True
    then have "fst (ratio_draw N S G g) = ?av1 @ py_take (N - int (length ?av1)) ?ge"
      by (simp add: ratio_draw_av)
    then show ?thesis
      using subset_mset.add_mono [OF 1 2] by simp
  next
    case False
    then have "fst (ratio_draw N S G g) = ?av1"
      by (simp add: ratio_draw_av)
    then show ?thesis
      using 1 by (simp add: subset_mset.add_increasing2)
  qed
qed

lemma ratio_draw_length_le:
  assumes "0 \<le> N"
  shows "int (length (fst (ratio_draw N S G g))) \<le> N"
proof -
  let ?sp = "fst (shuffle S g)"
  let ?av1 = "py_take (num_specific N) ?sp"
  let ?ge = "fst (shuffle G (snd (shuffle S g)))"
  have 1: "int (length ?av1) \<le> N"
  proof -
    have "length ?av1 = min (nat (num_specific N)) (length ?sp)"
      using num_specific_le [OF assms] by (simp add: py_take_length_nonneg)
    then show ?thesis
      using num_specific_le [OF assms] by arith
  qed
  show ?thesis
  proof (cases "0 < N - int (length ?av1)")
    case True
    then have "fst (ratio_draw N S G g) = ?av1 @ py_take (N - int (length ?av1)) ?ge"
      by (simp add: ratio_draw_av)
    moreover have "int (length (py_take (N - int (length ?av1)) ?ge)) \<le> N - int (length ?av1)"
      using True by (simp add: py_take_length_nonneg)
    ultimately show ?thesis by simp
  next
    case False
    then have "fst (ratio_draw N S G g) = ?av1"
      by (simp add: ratio_draw_av)
    with 1 show ?thesis by simp
  qed
qed

lemma prepare_questions_fst:
  "fst (prepare_questions N S G g) =
     (let r = ratio_draw N S G g;
          pool = shuffle (fst (snd r) @ fst (snd (snd r))) (snd (snd (snd r)))
      in if int (length (fst r)) < N
         then fst (shuffle (py_take N (fst pool)) (snd pool))
         else fst (shuffle (fst r) (snd (snd (snd r)))))"
proof (cases "S = [] \<and> G = []")
  case True
  then show ?thesis
    by (simp add: prepare_questions_def ratio_draw_eq shuffle_Nil py_take_Nil)
next
  case False
  then show ?thesis
    by (cases "ratio_draw N S G g")
       (auto simp add: prepare_questions_def Let_def split: prod.splits)
qed

lemma prepare_questions_subseteq:
  "mset (fst (prepare_questions N S G g)) \<subseteq># mset S + mset G"
proof (cases "int (length (fst (ratio_draw N S G g))) < N")
  case True
  let ?r = "ratio_draw N S G g"
  let ?pool = "shuffle (fst (snd ?r) @ fst (snd (snd ?r))) (snd (snd (snd ?r)))"
  have "mset (py_take N (fst ?pool)) \<subseteq># mset (fst ?pool)"
    by (rule py_take_subseteq)
  moreover have "mset (fst ?pool) = mset S + mset G"
    by (simp add: shuffle_mset ratio_draw_sp ratio_draw_ge)
  ultimately show ?thesis
    using True by (simp add: prepare_questions_fst Let_def shuffle_mset)
next
  case False
  then show ?thesis
    using ratio_draw_subseteq [of N S G g]
    by (simp add: prepare_questions_fst Let_def shuffle_mset)
qed

lemma prepare_questions_length:
  assumes "0 \<le> N"
  shows "length (fst (prepare_questions N S G g)) = min (nat N) (length S + length G)"
proof (cases "int (length (fst (ratio_draw N S G g))) < N")
  case True
  let ?r = "ratio_draw N S G g"
  let ?pool = "shuffle (fst (snd ?r) @ fst (snd (snd ?r))) (snd (snd (snd ?r)))"
  have "length (fst ?pool) = length S + length G"
    by (simp add: shuffle_length ratio_draw_sp ratio_draw_ge)
  then show ?thesis
    using True assms
    by (simp add: prepare_questions_fst Let_def shuffle_length py_take_length_nonneg)
next
  case False
  with ratio_draw_length_le [OF assms, of S G g]
  have "int (length (fst (ratio_draw N S G g))) = N" by simp
  moreover have "length (fst (ratio_draw N S G g)) \<le> length S + length G"
    using size_mset_mono [OF ratio_draw_subseteq [of N S G g]] by simp
  ultimately show ?thesis
    using False by (auto simp add: prepare_questions_fst Let_def shuffle_length)
qed

lemma distinct_of_mset_subseteq:
  assumes "mset xs \<subseteq># mset ys" and "distinct ys"
  shows "distinct xs"
proof -
  have "count (mset xs) a \<le> 1" for a
  proof -
    have "count (mset xs) a \<le> count (mset ys) a"
      using assms(1) by (rule mset_subset_eq_count)
    also have "\<dots> \<le> 1"
      using assms(2) by (simp add: distinct_count_atmost_1)
    finally show ?thesis .
  qed
  then show ?thesis
    unfolding distinct_count_atmost_1
    by (metis count_greater_zero_iff in_multiset_in_set le_neq_implies_less less_one not_gr_zero order_le_less)
qed

lemma shuffle_filter_length:
  "length (filter P (fst (shuffle xs g))) = length (filter P xs)"
proof -
  have "mset (filter P (fst (shuffle xs g))) = mset (filter P xs)"
    by (simp add: shuffle_mset)
  then show ?thesis by (metis size_mset)
qed

lemma ratio_draw_specific_count:
  assumes "0 \<le> N" and "num_specific N \<le> int (length S)"
  shows "num_specific N \<le> int (length (filter (\<lambda>q. q \<in> set S) (fst (ratio_draw N S G g))))"
proof -
  let ?sp = "fst (shuffle S g)"
  let ?av1 = "py_take (num_specific N) ?sp"
  have ns: "0 \<le> num_specific N"
    using num_specific_le [OF assms(1)] by simp
  have len: "int (length ?av1) = num_specific N"
    using ns assms(2) by (simp add: py_take_length_nonneg shuffle_length)
  have "set ?av1 \<subseteq> set S"
    using set_mset_mono [OF py_take_subseteq [of "num_specific N" ?sp]]
    by (simp add: shuffle_set)
  then have all: "filter (\<lambda>q. q \<in> set S) ?av1 = ?av1"
    by (auto simp add: filter_id_conv)
  have "int (length ?av1) \<le> int (length (filter (\<lambda>q. q \<in> set S) (fst (ratio_draw N S G g))))"
    by (simp add: ratio_draw_av all)
  with len show ?thesis by simp
qed

lemma ratio_draw_enough:
  assumes "0 \<le> N" and "num_specific N \<le> int (length S)"
    and "N - num_specific N \<le> int (length G)"
  shows "N \<le> int (length (fst (ratio_draw N S G g)))"
proof -
  let ?sp = "fst (shuffle S g)"
  let ?av1 = "py_take (num_specific N) ?sp"
  let ?ge = "fst (shuffle G (snd (shuffle S g)))"
  have ns: "0 \<le> num_specific N"
    using num_specific_le [OF assms(1)] by simp
  have len: "int (length ?av1) = num_specific N"
    using ns assms(2) by (simp add: py_take_length_nonneg shuffle_length)
  show ?thesis
  proof (cases "0 < N - int (length ?av1)")
    case True
    then have "length (py_take (N - int (length ?av1)) ?ge) =
        min (nat (N - int (length ?av1))) (length G)"
      by (simp only: py_take_length_nonneg [OF less_imp_le] shuffle_length)
    then have "int (length (py_take (N - int (length ?av1)) ?ge)) = N - int (length ?av1)"
      using assms(3) True unfolding len by linarith
    with True show ?thesis
      by (simp add: ratio_draw_av)
  next
    case False
    then show ?thesis
      by (simp add: ratio_draw_av)
  qed
qed

lemma supply_int:
  fixes N :: int
  shows "(of_int N * SPECIFIC_QUESTIONS_RATIO \<le> (of_nat n :: rat)) = (3 * N \<le> 5 * int n)"
    and "(of_int N * (1 - SPECIFIC_QUESTIONS_RATIO) \<le> (of_nat n :: rat)) = (2 * N \<le> 5 * int n)"
proof -
  have "(of_int N * (6 / 10) \<le> (of_nat n :: rat)) = ((of_int (3 * N) :: rat) \<le> of_int (5 * int n))"
    by (simp add: field_simps)
  then show "(of_int N * SPECIFIC_QUESTIONS_RATIO \<le> (of_nat n :: rat)) = (3 * N \<le> 5 * int n)"
    unfolding SPECIFIC_QUESTIONS_RATIO_def of_int_le_iff .
  have "(of_int N * (1 - 6 / 10) \<le> (of_nat n :: rat)) = ((of_int (2 * N) :: rat) \<le> of_int (5 * int n))"
    by (simp add: field_simps)
  then show "(of_int N * (1 - SPECIFIC_QUESTIONS_RATIO) \<le> (of_nat n :: rat)) = (2 * N \<le> 5 * int n)"
    unfolding SPECIFIC_QUESTIONS_RATIO_def of_int_le_iff .
qed

lemma floor_ratio: "\<lfloor>of_int N * SPECIFIC_QUESTIONS_RATIO\<rfloor> = (3 * N) div 5"
proof -
  have e: "(of_int N * (6 / 10) :: rat) = of_int (3 * N) / of_int 5" by simp
  show ?thesis
    unfolding SPECIFIC_QUESTIONS_RATIO_def e by (rule floor_divide_of_int_eq)
qed




section \<open>Facts about double-precision rounding\<close>

lemma round_half_even_error: "\<bar>of_int (round_half_even z) - z\<bar> \<le> 1 / 2"
proof -
  have "of_int \<lfloor>z\<rfloor> \<le> z" and "z < of_int \<lfloor>z\<rfloor> + 1"
    by linarith+
  then show ?thesis
    by (auto simp add: round_half_even_def Let_def)
qed

lemma round_half_even_nearest:
  assumes "\<bar>of_int n - z\<bar> < 1 / 2"
  shows "round_half_even z = n"
proof -
  have "\<bar>of_int (round_half_even z) - z\<bar> \<le> 1 / 2"
    by (rule round_half_even_error)
  with assms have "\<bar>(of_int (round_half_even z) :: rat) - of_int n\<bar> < 1"
    by linarith
  then have "\<bar>(of_int (round_half_even z - n) :: rat)\<bar> < 1"
    by simp
  then have "\<bar>round_half_even z - n\<bar> < 1"
    by (metis of_int_abs of_int_less_1_iff)
  then show ?thesis by linarith
qed

lemma ilog2_bounds:
  assumes "0 < x"
  shows "2 powi ilog2 x \<le> x" and "x < 2 powi (ilog2 x + 1)"
proof -
  obtain p q where pq: "quotient_of x = (p, q)"
    by (cases "quotient_of x")
  have q: "0 < q" using pq by (rule quotient_of_denom_pos)
  have x: "x = of_int p / of_int q" using pq by (rule quotient_of_div)
  have p: "0 < p"
    using assms q unfolding x by (simp add: zero_less_divide_iff)
  let ?bp = "bitlen p" and ?bq = "bitlen q"
  have bp: "1 \<le> ?bp" and bq: "1 \<le> ?bq"
    using p q bitlen_eq_zero_iff [of p] bitlen_eq_zero_iff [of q] bitlen_nonneg [of p]
      bitlen_nonneg [of q] by linarith+
  have "2 ^ nat (?bp - 1) \<le> p" "p < 2 ^ nat ?bp" "2 ^ nat (?bq - 1) \<le> q" "q < 2 ^ nat ?bq"
    using bitlen_bounds [OF p] bitlen_bounds [OF q] by simp_all
  then have "(2::rat) ^ nat (?bp - 1) \<le> of_int p" "(of_int p :: rat) < 2 ^ nat ?bp"
    "(2::rat) ^ nat (?bq - 1) \<le> of_int q" "(of_int q :: rat) < 2 ^ nat ?bq"
    by (metis of_int_le_iff of_int_less_iff of_int_numeral of_int_power)+
  then have P: "(2::rat) powi (?bp - 1) \<le> of_int p" "(of_int p :: rat) < 2 powi ?bp"
    and Q: "(2::rat) powi (?bq - 1) \<le> of_int q" "(of_int q :: rat) < 2 powi ?bq"
    using bp bq by (simp_all add: power_int_nonneg_exp)
  have qpos: "(0::rat) < of_int q" using q by simp
  have low: "2 powi (?bp - ?bq - 1) \<le> x"
  proof -
    have "(2::rat) powi (?bp - ?bq - 1) * of_int q \<le> 2 powi (?bp - ?bq - 1) * 2 powi ?bq"
      using Q(2) by (simp add: less_imp_le)
    also have "\<dots> = 2 powi (?bp - 1)"
      by (simp add: power_int_add [symmetric])
    also have "\<dots> \<le> of_int p" by (rule P(1))
    finally show ?thesis
      unfolding x using qpos by (simp add: pos_le_divide_eq)
  qed
  have up: "x < 2 powi (?bp - ?bq + 1)"
  proof -
    have "(of_int p :: rat) < 2 powi ?bp" by (rule P(2))
    also have "\<dots> = 2 powi (?bp - ?bq + 1) * 2 powi (?bq - 1)"
      by (simp add: power_int_add [symmetric])
    also have "\<dots> \<le> 2 powi (?bp - ?bq + 1) * of_int q"
      using Q(1) by simp
    finally show ?thesis
      unfolding x using qpos by (simp add: pos_divide_less_eq)
  qed
  show "2 powi ilog2 x \<le> x"
    using low by (auto simp add: ilog2_def pq Let_def not_less)
  show "x < 2 powi (ilog2 x + 1)"
    using up by (auto simp add: ilog2_def pq Let_def)
qed

lemma pow2_less_cancel:
  assumes "(2::rat) powi a < 2 powi b"
  shows "a < b"
proof (rule ccontr)
  assume "\<not> a < b"
  then have "(2::rat) powi b \<le> 2 powi a"
    by (intro power_int_increasing) simp_all
  with assms show False by simp
qed

lemma ilog2_unique:
  assumes "2 powi e \<le> x" and "x < 2 powi (e + 1)"
  shows "ilog2 x = e"
proof -
  have "(0::rat) < 2 powi e" by simp
  with assms(1) have x: "0 < x" by linarith
  have "(2::rat) powi ilog2 x < 2 powi (e + 1)"
    using ilog2_bounds(1) [OF x] assms(2) by linarith
  then have 1: "ilog2 x < e + 1"
    by (rule pow2_less_cancel)
  have "(2::rat) powi e < 2 powi (ilog2 x + 1)"
    using ilog2_bounds(2) [OF x] assms(1) by linarith
  then have 2: "e < ilog2 x + 1"
    by (rule pow2_less_cancel)
  from 1 2 show ?thesis by linarith
qed


lemma quantum_pos: "0 < quantum x"
  by (simp add: quantum_def)

lemma quantum_normal:
  assumes "2 powi e \<le> \<bar>x\<bar>" and "\<bar>x\<bar> < 2 powi (e + 1)" and "- 1022 \<le> e"
  shows "quantum x = 2 powi (e - 52)"
  using ilog2_unique [OF assms(1,2)] assms(3) by (simp add: quantum_def)

lemma quantum_le:
  assumes "2 powi (- 1022) \<le> \<bar>x\<bar>"
  shows "quantum x \<le> \<bar>x\<bar> * 2 powi (- 52)"
proof -
  have "(0::rat) < 2 powi (- 1022)" by simp
  with assms have x: "0 < \<bar>x\<bar>" by linarith
  let ?m = "max (ilog2 \<bar>x\<bar>) (- 1022)"
  have "(2::rat) powi ?m \<le> \<bar>x\<bar>"
    using ilog2_bounds(1) [OF x] assms by (simp add: max_def)
  then have "(2::rat) powi ?m * 2 powi (- 52) \<le> \<bar>x\<bar> * 2 powi (- 52)"
    by (intro mult_right_mono) simp_all
  moreover have "quantum x = 2 powi ?m * 2 powi (- 52)"
  proof -
    have "(2::rat) powi (?m + (- 52)) = 2 powi ?m * 2 powi (- 52)"
      by (rule power_int_add) simp
    then show ?thesis
      unfolding quantum_def by (simp only: diff_conv_add_uminus)
  qed
  ultimately show ?thesis by simp
qed

lemma round_binary64_quantum: "\<bar>round_binary64 x - x\<bar> \<le> quantum x / 2"
proof (cases "x = 0")
  case True
  then show ?thesis
    using quantum_pos [of x] by (simp add: round_binary64_def)
next
  case False
  let ?q = "quantum x"
  have q: "0 < ?q" by (rule quantum_pos)
  have "round_binary64 x - x = (of_int (round_half_even (x / ?q)) - x / ?q) * ?q"
    using False q by (simp add: round_binary64_def field_simps)
  then have "\<bar>round_binary64 x - x\<bar> = \<bar>of_int (round_half_even (x / ?q)) - x / ?q\<bar> * ?q"
    using q by (simp add: abs_mult)
  also have "\<dots> \<le> 1 / 2 * ?q"
    using round_half_even_error [of "x / ?q"] q by (intro mult_right_mono) simp_all
  finally show ?thesis by simp
qed

lemma round_binary64_error:
  assumes "2 powi (- 1022) \<le> \<bar>x\<bar>"
  shows "\<bar>round_binary64 x - x\<bar> \<le> \<bar>x\<bar> / 2 ^ 53"
proof -
  have "\<bar>round_binary64 x - x\<bar> \<le> quantum x / 2"
    by (rule round_binary64_quantum)
  also have "\<dots> \<le> (\<bar>x\<bar> * 2 powi (- 52)) / 2"
    using quantum_le [OF assms] by simp
  also have "\<dots> = \<bar>x\<bar> / 2 ^ 53"
    by (simp add: power_int_minus_divide)
  finally show ?thesis .
qed

lemma round_binary64_nearest:
  assumes "2 powi e \<le> \<bar>x\<bar>" and "\<bar>x\<bar> < 2 powi (e + 1)" and "- 1022 \<le> e"
    and "\<bar>of_int n * 2 powi (e - 52) - x\<bar> < 2 powi (e - 53)"
  shows "round_binary64 x = of_int n * 2 powi (e - 52)"
proof -
  let ?q = "(2::rat) powi (e - 52)"
  have q: "quantum x = ?q" using assms(1-3) by (rule quantum_normal)
  have qpos: "0 < ?q" by simp
  have "(0::rat) < 2 powi e" by simp
  with assms(1) have "0 < \<bar>x\<bar>" by linarith
  then have x: "x \<noteq> 0" by simp
  have half: "(2::rat) powi (e - 53) = ?q / 2"
    using power_int_add [of "2::rat" "e - 52" "-1"] by (simp add: power_int_minus_divide)
  have "\<bar>of_int n - x / ?q\<bar> * ?q = \<bar>of_int n * ?q - x\<bar>"
    using qpos by (simp add: abs_mult [symmetric] field_simps del: abs_mult)
  also have "\<dots> < 1 / 2 * ?q"
    using assms(4) half by simp
  finally have "\<bar>of_int n - x / ?q\<bar> < 1 / 2"
    using qpos by (simp add: mult_less_cancel_right)
  then have "round_half_even (x / ?q) = n"
    by (rule round_half_even_nearest)
  then show ?thesis
    using x by (simp add: round_binary64_def q)
qed

lemma quotient_range:
  fixes C T :: int
  assumes "0 < C" and "C \<le> T" and "T \<le> 2 ^ 32"
  shows "1 / 2 ^ 32 \<le> (of_int C / of_int T :: rat)" and "(of_int C / of_int T :: rat) \<le> 1"
proof -
  have T: "(0::rat) < of_int T" using assms by simp
  have "(of_int T :: rat) \<le> of_int (2 ^ 32)"
    using assms(3) by (simp only: of_int_le_iff)
  then have T32: "(of_int T :: rat) \<le> 4294967296" by simp
  have C1: "(1::rat) \<le> of_int C" using assms(1) by simp
  have "(of_int T :: rat) \<le> 4294967296 * of_int C"
    using T32 C1 by linarith
  then show "1 / 2 ^ 32 \<le> (of_int C / of_int T :: rat)"
    using T by (simp add: pos_le_divide_eq)
  show "(of_int C / of_int T :: rat) \<le> 1"
    using T assms(2) by simp
qed

lemma double_rounding:
  fixes x :: rat
  assumes "1 / 2 ^ 32 \<le> x" and "x \<le> 1"
  defines "x1 \<equiv> round_binary64 x"
  defines "p \<equiv> round_binary64 (x1 * 100)"
  shows "\<bar>x1\<bar> < 2 powi 1024" and "\<bar>p\<bar> < 2 powi 1024" and "\<bar>p - 100 * x\<bar> \<le> 100 * x / 2 ^ 51"
proof -
  have big: "(256::rat) < 2 powi 1024" by simp
  have small: "(2::rat) powi (- 1022) \<le> 1 / 8589934592" by simp
  have lo: "1 / 4294967296 \<le> x" using assms(1) by simp
  then have x: "0 < x" by linarith
  have "2 powi (- 1022) \<le> \<bar>x\<bar>"
    using small lo by linarith
  from round_binary64_error [OF this]
  have "\<bar>x1 - x\<bar> \<le> x / 9007199254740992"
    using x by (simp add: x1_def)
  then have x1: "x - x / 9007199254740992 \<le> x1" "x1 \<le> x + x / 9007199254740992"
    by linarith+
  have x1b: "1 / 8589934592 \<le> x1" "x1 \<le> 2"
    using x1 lo assms(2) by linarith+
  then have "\<bar>x1\<bar> \<le> 2" by linarith
  then show "\<bar>x1\<bar> < 2 powi 1024"
    using big by linarith
  have "2 powi (- 1022) \<le> \<bar>x1 * 100\<bar>"
    using small x1b(1) by linarith
  from round_binary64_error [OF this]
  have "\<bar>p - x1 * 100\<bar> \<le> \<bar>x1 * 100\<bar> / 9007199254740992"
    by (simp add: p_def)
  moreover have "\<bar>x1 * 100\<bar> = x1 * 100"
    using x1b(1) by linarith
  ultimately have e2: "\<bar>p - x1 * 100\<bar> \<le> x1 * 100 / 9007199254740992"
    by simp
  then have "\<bar>p\<bar> \<le> 256"
    using x1b by linarith
  then show "\<bar>p\<bar> < 2 powi 1024"
    using big by linarith
  have "\<bar>p - 100 * x\<bar> \<le> 100 * x / 2251799813685248"
    using e2 x1 x by linarith
  then show "\<bar>p - 100 * x\<bar> \<le> 100 * x / 2 ^ 51"
    by simp
qed


lemma rd_7_10: "round_binary64 (round_binary64 (7 / 10) * 100) = 70"
proof -
  have a: "round_binary64 (7 / 10) = 6305039478318694 / 2 ^ 53"
    using round_binary64_nearest [of "- 1" "7 / 10" 6305039478318694] by simp
  have b: "round_binary64 (6305039478318694 / 2 ^ 53 * 100) = 70"
    using round_binary64_nearest [of 6 "6305039478318694 / 2 ^ 53 * 100" 4925812092436480]
    by simp
  show ?thesis unfolding a by (rule b)
qed

lemma rd_1_2: "round_binary64 (round_binary64 (1 / 2) * 100) = 50"
proof -
  have a: "round_binary64 (1 / 2) = 1 / 2"
    using round_binary64_nearest [of "- 1" "1 / 2" 4503599627370496] by simp
  have b: "round_binary64 (1 / 2 * 100) = 50"
    using round_binary64_nearest [of 5 "1 / 2 * 100" 7036874417766400] by simp
  show ?thesis unfolding a by (rule b)
qed

lemma threshold_gap:
  fixes n T :: int
  assumes "1 \<le> n" and "0 < T" and "T \<le> 2 ^ 32"
  shows "1 / 4294967296 \<le> (of_int n / of_int T :: rat)"
proof -
  have T: "(0::rat) < of_int T" using assms by simp
  have "(of_int T :: rat) \<le> of_int (2 ^ 32)"
    using assms(3) by (simp only: of_int_le_iff)
  then have T32: "(of_int T :: rat) \<le> 4294967296" by simp
  have "(1::rat) \<le> of_int n" using assms(1) by simp
  with T32 have "(of_int T :: rat) \<le> 4294967296 * of_int n"
    by linarith
  then show ?thesis
    using T by (simp add: pos_le_divide_eq)
qed

lemma tier_agreement:
  fixes C T :: int
  assumes "0 \<le> C" and "C \<le> T" and "0 < T" and "T \<le> 2 ^ 32"
  defines "E \<equiv> 100 * of_int C / of_int T :: rat"
  defines "P \<equiv> round_binary64 (round_binary64 (of_int C / of_int T) * 100)"
  shows "\<bar>P - E\<bar> \<le> E / 2 ^ 51" and "(70 \<le> P) = (70 \<le> E)" and "(50 \<le> P) = (50 \<le> E)"
    and "\<bar>round_binary64 (of_int C / of_int T)\<bar> < 2 powi 1024" and "\<bar>P\<bar> < 2 powi 1024"
proof -
  have T: "(0::rat) < of_int T" using assms by simp
  have E100: "E \<le> 100" and E0: "0 \<le> E"
    using assms(1,2) T by (simp_all add: E_def pos_divide_le_eq)
  have big: "(1::rat) < 2 powi 1024" by simp
  have acc: "\<bar>P - E\<bar> \<le> E / 2251799813685248 \<and>
      \<bar>round_binary64 (of_int C / of_int T)\<bar> < 2 powi 1024 \<and> \<bar>P\<bar> < 2 powi 1024"
  proof (cases "C = 0")
    case True
    then show ?thesis
      using big by (simp add: P_def E_def round_binary64_def)
  next
    case False
    with assms(1) have C: "0 < C" by simp
    from double_rounding [OF quotient_range [OF C assms(2,4)]]
    show ?thesis by (simp add: P_def E_def)
  qed
  then show "\<bar>P - E\<bar> \<le> E / 2 ^ 51"
    and "\<bar>round_binary64 (of_int C / of_int T)\<bar> < 2 powi 1024" and "\<bar>P\<bar> < 2 powi 1024"
    by simp_all
  from acc E100 E0 have near: "E - 100 / 2251799813685248 \<le> P" "P \<le> E + 100 / 2251799813685248"
    by linarith+
  show "(70 \<le> P) = (70 \<le> E)"
  proof -
    consider "10 * C = 7 * T" | "1 \<le> 10 * C - 7 * T" | "1 \<le> 7 * T - 10 * C"
      by linarith
    then show ?thesis
    proof cases
      case 1
      then have "(of_int (10 * C) :: rat) = of_int (7 * T)" by (simp only:)
      then have x: "(of_int C / of_int T :: rat) = 7 / 10" and "E = 70"
        using T by (simp_all add: E_def field_simps)
      have "P = 70"
        unfolding P_def x by (rule rd_7_10)
      with \<open>E = 70\<close> show ?thesis by simp
    next
      case 2
      have "E - 70 = 10 * (of_int (10 * C - 7 * T) / of_int T)"
        using T by (simp add: E_def field_simps)
      with threshold_gap [OF 2 assms(3,4)] have "70 + 10 / 4294967296 \<le> E"
        by linarith
      with near show ?thesis by linarith
    next
      case 3
      have "70 - E = 10 * (of_int (7 * T - 10 * C) / of_int T)"
        using T by (simp add: E_def field_simps)
      with threshold_gap [OF 3 assms(3,4)] have "E \<le> 70 - 10 / 4294967296"
        by linarith
      with near show ?thesis by linarith
    qed
  qed
  show "(50 \<le> P) = (50 \<le> E)"
  proof -
    consider "2 * C = T" | "1 \<le> 2 * C - T" | "1 \<le> T - 2 * C"
      by linarith
    then show ?thesis
    proof cases
      case 1
      then have "(of_int (2 * C) :: rat) = of_int T" by (simp only:)
      then have x: "(of_int C / of_int T :: rat) = 1 / 2" and "E = 50"
        using T by (simp_all add: E_def field_simps)
      have "P = 50"
        unfolding P_def x by (rule rd_1_2)
      with \<open>E = 50\<close> show ?thesis by simp
    next
      case 2
      have "E - 50 = 50 * (of_int (2 * C - T) / of_int T)"
        using T by (simp add: E_def field_simps)
      with threshold_gap [OF 2 assms(3,4)] have "50 + 50 / 4294967296 \<le> E"
        by linarith
      with near show ?thesis by linarith
    next
      case 3
      have "50 - E = 50 * (of_int (T - 2 * C) / of_int T)"
        using T by (simp add: E_def field_simps)
      with threshold_gap [OF 3 assms(3,4)] have "E \<le> 50 - 50 / 4294967296"
        by linarith
      with near show ?thesis by linarith
    qed
  qed
qed


lemma evaluate_performance_finite:
  assumes "T \<noteq> 0" and "round_binary64 (of_int C / of_int T) = q" and "\<bar>q\<bar> < 2 powi 1024"
    and "round_binary64 (q * 100) = p" and "\<bar>p\<bar> < 2 powi 1024"
  shows "evaluate_performance C T =
     Inr (Finite p,
          if 70 \<le> p then EXCELLENT else if 50 \<le> p then GOOD else NEEDS_IMPROVEMENT,
          if 70 \<le> p then ExcellentMessage else if 50 \<le> p then GoodMessage
          else KeepStudyingMessage)"
proof -
  have 1: "int_true_div C T = Inr q"
    using assms(1,2,3) by (simp add: int_true_div_def Let_def)
  have "\<not> 2 powi 1024 \<le> p" and "\<not> p \<le> - (2 powi 1024)"
    using assms(5) by linarith+
  then have 2: "float_mul q 100 = Finite p"
    using assms(4) by (simp add: float_mul_def Let_def)
  show ?thesis
    using assms(1)
    by (simp add: evaluate_performance_def 1 2 EXCELLENT_THRESHOLD_def GOOD_THRESHOLD_def)
qed

lemma rd_11_20: "round_binary64 (round_binary64 (11 / 20) * 100) = 55 + 1 / 2 ^ 47"
proof -
  have a: "round_binary64 (11 / 20) = 4953959590107546 / 2 ^ 53"
    using round_binary64_nearest [of "- 1" "11 / 20" 4953959590107546] by simp
  have b: "round_binary64 (4953959590107546 / 2 ^ 53 * 100) = 55 + 1 / 2 ^ 47"
    using round_binary64_nearest [of 5 "4953959590107546 / 2 ^ 53 * 100" 7740561859543041]
    by simp
  show ?thesis unfolding a by (rule b)
qed

lemma rd_2_5: "round_binary64 (round_binary64 (2 / 5) * 100) = 40"
proof -
  have a: "round_binary64 (2 / 5) = 7205759403792794 / 2 ^ 54"
    using round_binary64_nearest [of "- 2" "2 / 5" 7205759403792794] by simp
  have b: "round_binary64 (7205759403792794 / 2 ^ 54 * 100) = 40"
    using round_binary64_nearest [of 5 "7205759403792794 / 2 ^ 54 * 100" 5629499534213120]
    by simp
  show ?thesis unfolding a by (rule b)
qed

lemma rd_overflow: "round_binary64 (2 ^ 1024) = 2 ^ 1024"
  using round_binary64_nearest [of 1024 "2 ^ 1024" "2 ^ 52"] by simp

lemma rd_below_7_10:
  "round_binary64 (69999999999999999 / 100000000000000000) = 6305039478318694 / 2 ^ 53"
  using round_binary64_nearest
    [of "- 1" "69999999999999999 / 100000000000000000" 6305039478318694]
  by simp

lemma rd_times_100: "round_binary64 (6305039478318694 / 2 ^ 53 * 100) = 70"
  using round_binary64_nearest [of 6 "6305039478318694 / 2 ^ 53 * 100" 4925812092436480]
  by simp

section \<open>Facts about the session operations\<close>

lemma run_Nil: "run [] = initialize_session_state"
  by (simp add: run_def)

lemma run_snoc: "run (evs @ [e]) = apply_event (run evs) e"
  by (simp add: run_def)

lemma start_quiz_cases:
  "fst (start_quiz n sp ge g s) = s \<or>
   (fst (prepare_questions n sp ge g) \<noteq> [] \<and>
    fst (start_quiz n sp ge g s) =
      s\<lparr>questions := fst (prepare_questions n sp ge g), quiz_started := True,
        current_question := 0, correct_answers := 0, user_answers := [],
        quiz_finished := False, question_answered := False, last_user_answer := None,
        last_answer_correct := None\<rparr>)"
  by (cases "prepare_questions n sp ge g") (simp add: start_quiz_def)

lemma position_ok_apply_event: "position_ok s \<Longrightarrow> position_ok (apply_event s e)"
proof (cases e)
  case (StartQuiz n sp ge g)
  assume "position_ok s"
  then show ?thesis
    using start_quiz_cases [of n sp ge g s] StartQuiz
    by (auto simp add: position_ok_def)
next
  case (AnswerQuestion a)
  assume "position_ok s"
  then show ?thesis
    using AnswerQuestion
    by (auto simp add: position_ok_def answer_question_def Let_def split: sum.splits)
next
  case NextQuestion
  assume "position_ok s"
  then show ?thesis
    using NextQuestion by (auto simp add: position_ok_def next_question_def Let_def)
next
  case ResetQuiz
  then show ?thesis
    by (simp add: position_ok_def reset_quiz_def)
qed

lemma position_ok_run: "position_ok (run evs)"
proof (induction evs rule: rev_induct)
  case Nil
  show ?case by (simp add: run_Nil position_ok_def initialize_session_state_def)
next
  case (snoc e evs)
  then show ?case by (simp add: run_snoc position_ok_apply_event)
qed

lemma log_ok_apply_event: "log_ok s \<Longrightarrow> log_ok (apply_event s e)"
proof (cases e)
  case (StartQuiz n sp ge g)
  assume "log_ok s"
  then show ?thesis
    using start_quiz_cases [of n sp ge g s] StartQuiz
    by (auto simp add: log_ok_def)
next
  case (AnswerQuestion a)
  assume "log_ok s"
  then show ?thesis
    using AnswerQuestion
    by (auto simp add: log_ok_def answer_question_def Let_def split: sum.splits)
next
  case NextQuestion
  assume "log_ok s"
  then show ?thesis
    using NextQuestion by (auto simp add: log_ok_def next_question_def Let_def)
next
  case ResetQuiz
  then show ?thesis
    by (simp add: log_ok_def reset_quiz_def)
qed

lemma log_ok_run: "log_ok (run evs)"
proof (induction evs rule: rev_induct)
  case Nil
  show ?case by (simp add: run_Nil log_ok_def initialize_session_state_def)
next
  case (snoc e evs)
  then show ?case by (simp add: run_snoc log_ok_apply_event)
qed

section \<open>Question selection: size and identifiers of the result\<close>

text \<open>
  C1 (as amended). For every \<open>N\<close> in \<open>{10, 20, 30, 40, 50}\<close> and every pair of pools
  that is not both-empty, \<open>prepare_questions N\<close> returns exactly
  \<open>min N totalAvailable\<close> questions, taken from the combined pools without using any
  pool entry twice; the returned questions are unique by id whenever the ids are unique
  across the two pools together. The function itself never compares ids.
\<close>

theorem prepare_questions_count_and_ids:
  "N \<in> {10, 20, 30, 40, 50} \<Longrightarrow> \<not> (S = [] \<and> G = []) \<Longrightarrow>
     length (fst (prepare_questions N S G g)) = min (nat N) (length S + length G) \<and>
     mset (fst (prepare_questions N S G g)) \<subseteq># mset (S @ G) \<and>
     (distinct (map id_q (S @ G)) \<longrightarrow> distinct (map id_q (fst (prepare_questions N S G g))))"
proof -
  assume N: "N \<in> {10, 20, 30, 40, 50}"
  let ?res = "fst (prepare_questions N S G g)"
  have sub: "mset ?res \<subseteq># mset (S @ G)"
    using prepare_questions_subseteq [of N S G g] by simp
  have len: "length ?res = min (nat N) (length S + length G)"
    using N by (intro prepare_questions_length) auto
  have "distinct (map id_q ?res)" if "distinct (map id_q (S @ G))"
  proof (rule distinct_of_mset_subseteq [OF _ that])
    show "mset (map id_q ?res) \<subseteq># mset (map id_q (S @ G))"
      using image_mset_subseteq_mono [OF sub, of id_q] by simp
  qed
  with sub len show ?thesis by blast
qed

theorem prepare_questions_count_and_ids_witness:
  "(10::int) \<in> {10, 20, 30, 40, 50} \<and>
   \<not> ([sample_question 1 ''a'', sample_question 2 ''b''] = [] \<and> [sample_question 3 ''c''] = []) \<and>
   distinct (map id_q ([sample_question 1 ''a'', sample_question 2 ''b''] @ [sample_question 3 ''c''])) \<and>
   length (fst (prepare_questions 10 [sample_question 1 ''a'', sample_question 2 ''b'']
     [sample_question 3 ''c''] ascending_draws)) = 3 \<and>
   distinct (map id_q (fst (prepare_questions 10 [sample_question 1 ''a'', sample_question 2 ''b'']
     [sample_question 3 ''c''] ascending_draws)))"
  using prepare_questions_count_and_ids
    [of 10 "[sample_question 1 ''a'', sample_question 2 ''b'']" "[sample_question 3 ''c'']"
      ascending_draws]
  by (simp add: sample_question_def)

text \<open>
  The claim as first stated (unique by id for every pair of pools) fails: the two
  databases number their rows independently, and two pools of one question each, both
  with id 1, give a quiz in which the id 1 occurs twice.
\<close>

theorem prepare_questions_duplicate_ids:
  "(10::int) \<in> {10, 20, 30, 40, 50} \<and>
   \<not> ([sample_question 1 ''a''] = [] \<and> [sample_question 1 ''b''] = []) \<and>
   \<not> distinct (map id_q (fst (prepare_questions 10 [sample_question 1 ''a'']
     [sample_question 1 ''b''] ascending_draws)))"
  by code_simp

section \<open>Question selection: share of the specific pool\<close>

text \<open>
  C3. For every \<open>N\<close> and every pair of pools such that the specific pool has at least
  \<open>N \<times> 0.6\<close> items and the general pool at least \<open>N \<times> 0.4\<close> items, the sequence
  returned by \<open>prepare_questions N\<close> contains at least \<open>floor (N \<times> 0.6)\<close> questions of
  the specific pool.
\<close>

theorem prepare_questions_specific_share:
  "of_int N * SPECIFIC_QUESTIONS_RATIO \<le> of_nat (length S) \<Longrightarrow>
   of_int N * (1 - SPECIFIC_QUESTIONS_RATIO) \<le> of_nat (length G) \<Longrightarrow>
   \<lfloor>of_int N * SPECIFIC_QUESTIONS_RATIO\<rfloor>
     \<le> int (length (filter (\<lambda>q. q \<in> set S) (fst (prepare_questions N S G g))))"
proof -
  assume "of_int N * SPECIFIC_QUESTIONS_RATIO \<le> of_nat (length S)"
    and "of_int N * (1 - SPECIFIC_QUESTIONS_RATIO) \<le> of_nat (length G)"
  then have S: "3 * N \<le> 5 * int (length S)" and G: "2 * N \<le> 5 * int (length G)"
    by (simp_all add: supply_int)
  show ?thesis
  proof (cases "0 \<le> N")
    case False
    then have "(3 * N) div 5 < 0" by simp
    then show ?thesis
      unfolding floor_ratio by linarith
  next
    case True
    have ns: "num_specific N = (3 * N) div 5"
      using True by (rule num_specific_nonneg)
    have 1: "num_specific N \<le> int (length S)"
      using S unfolding ns by linarith
    have 2: "N - num_specific N \<le> int (length G)"
      using G unfolding ns by linarith
    have "\<not> int (length (fst (ratio_draw N S G g))) < N"
      using ratio_draw_enough [OF True 1 2, of g] by simp
    then have "fst (prepare_questions N S G g) =
        fst (shuffle (fst (ratio_draw N S G g)) (snd (snd (snd (ratio_draw N S G g)))))"
      by (simp add: prepare_questions_fst Let_def)
    then show ?thesis
      using ratio_draw_specific_count [OF True 1, of G g]
      by (simp add: shuffle_filter_length floor_ratio ns)
  qed
qed

theorem prepare_questions_specific_share_witness:
  "of_int 5 * SPECIFIC_QUESTIONS_RATIO \<le> of_nat (length sample_specific) \<and>
   of_int 5 * (1 - SPECIFIC_QUESTIONS_RATIO) \<le> of_nat (length sample_general) \<and>
   \<lfloor>of_int 5 * SPECIFIC_QUESTIONS_RATIO\<rfloor> = 3 \<and>
   3 \<le> int (length (filter (\<lambda>q. q \<in> set sample_specific)
          (fst (prepare_questions 5 sample_specific sample_general ascending_draws))))"
  using prepare_questions_specific_share [of 5 sample_specific sample_general ascending_draws]
  by (simp add: SPECIFIC_QUESTIONS_RATIO_def sample_specific_def sample_general_def)

section \<open>Question selection: the fallback\<close>



section \<open>Scoring\<close>

text \<open>
  C4 (as amended). For every correct-count \<open>C\<close> and total \<open>T\<close>:
  when \<open>T = 0\<close>, \<open>evaluate_performance C T\<close> returns the percentage 0 and
  needs_improvement, with a message of its own, and divides nothing. When \<open>T \<noteq> 0\<close> the
  percentage \<open>P\<close> is the double-precision value of \<open>(C / T) \<times> 100\<close>: the quotient rounded to
  a double, times 100, rounded again; the call raises \<open>OverflowError\<close> when the quotient
  is too large for a double. The tier follows from \<open>P\<close> by thresholds that do not
  overlap, tested from the top: \<open>P \<ge> 70\<close> is excellent, \<open>50 \<le> P < 70\<close> is good,
  \<open>P < 50\<close> is needs_improvement. For \<open>0 \<le> C \<le> T \<le> 2 ^ 32\<close> with \<open>T > 0\<close> the call
  returns, \<open>P\<close> is within the relative error \<open>2 ^ - 51\<close> of \<open>100 \<times> C / T\<close>, and tier and
  message are those the exact value \<open>100 \<times> C / T\<close> gives.
\<close>

theorem evaluate_performance_tiers:
  "evaluate_performance C 0 = Inr (Finite 0, NEEDS_IMPROVEMENT, NoQuestionAnswered) \<and>
   (T \<noteq> 0 \<longrightarrow>
      (let q = round_binary64 (of_int C / of_int T); P = float_mul q 100
       in if 2 powi 1024 \<le> \<bar>q\<bar> then evaluate_performance C T = Inl OverflowError
          else evaluate_performance C T =
            Inr (P,
                 if float_ge P 70 then EXCELLENT else if float_ge P 50 then GOOD
                 else NEEDS_IMPROVEMENT,
                 if float_ge P 70 then ExcellentMessage else if float_ge P 50 then GoodMessage
                 else KeepStudyingMessage))) \<and>
   (0 \<le> C \<and> C \<le> T \<and> 0 < T \<and> T \<le> 2 ^ 32 \<longrightarrow>
      (let E = 100 * of_int C / of_int T;
           P = round_binary64 (round_binary64 (of_int C / of_int T) * 100)
       in \<bar>P - E\<bar> \<le> E / 2 ^ 51 \<and>
          evaluate_performance C T =
            Inr (Finite P,
                 if 70 \<le> E then EXCELLENT else if 50 \<le> E then GOOD else NEEDS_IMPROVEMENT,
                 if 70 \<le> E then ExcellentMessage else if 50 \<le> E then GoodMessage
                 else KeepStudyingMessage)))"
proof (intro conjI impI)
  show "evaluate_performance C 0 = Inr (Finite 0, NEEDS_IMPROVEMENT, NoQuestionAnswered)"
    by (simp add: evaluate_performance_def)
next
  assume "T \<noteq> 0"
  then show "let q = round_binary64 (of_int C / of_int T); P = float_mul q 100
       in if 2 powi 1024 \<le> \<bar>q\<bar> then evaluate_performance C T = Inl OverflowError
          else evaluate_performance C T =
            Inr (P,
                 if float_ge P 70 then EXCELLENT else if float_ge P 50 then GOOD
                 else NEEDS_IMPROVEMENT,
                 if float_ge P 70 then ExcellentMessage else if float_ge P 50 then GoodMessage
                 else KeepStudyingMessage)"
    by (simp add: evaluate_performance_def int_true_div_def Let_def EXCELLENT_THRESHOLD_def
        GOOD_THRESHOLD_def)
next
  assume "0 \<le> C \<and> C \<le> T \<and> 0 < T \<and> T \<le> 2 ^ 32"
  then have a: "0 \<le> C" "C \<le> T" "0 < T" "T \<le> 2 ^ 32" by simp_all
  let ?E = "100 * of_int C / of_int T :: rat"
  let ?P = "round_binary64 (round_binary64 (of_int C / of_int T) * 100)"
  note t = tier_agreement [OF a]
  have "evaluate_performance C T =
      Inr (Finite ?P,
           if 70 \<le> ?P then EXCELLENT else if 50 \<le> ?P then GOOD else NEEDS_IMPROVEMENT,
           if 70 \<le> ?P then ExcellentMessage else if 50 \<le> ?P then GoodMessage
           else KeepStudyingMessage)"
    using a(3) t(4,5) by (intro evaluate_performance_finite) simp_all
  then show "let E = ?E; P = ?P
       in \<bar>P - E\<bar> \<le> E / 2 ^ 51 \<and>
          evaluate_performance C T =
            Inr (Finite P,
                 if 70 \<le> E then EXCELLENT else if 50 \<le> E then GOOD else NEEDS_IMPROVEMENT,
                 if 70 \<le> E then ExcellentMessage else if 50 \<le> E then GoodMessage
                 else KeepStudyingMessage)"
    using t(1) unfolding Let_def t(2) t(3) by simp
qed

theorem evaluate_performance_tiers_witness:
  "evaluate_performance 0 0 = Inr (Finite 0, NEEDS_IMPROVEMENT, NoQuestionAnswered) \<and>
   evaluate_performance 7 10 = Inr (Finite 70, EXCELLENT, ExcellentMessage) \<and>
   evaluate_performance 5 10 = Inr (Finite 50, GOOD, GoodMessage) \<and>
   evaluate_performance 4 10 = Inr (Finite 40, NEEDS_IMPROVEMENT, KeepStudyingMessage) \<and>
   evaluate_performance (2 ^ 1024) 1 = Inl OverflowError \<and>
   evaluate_performance 69999999999999999 100000000000000000 =
     Inr (Finite 70, EXCELLENT, ExcellentMessage)"
proof -
  have five: "evaluate_performance 0 0 = Inr (Finite 0, NEEDS_IMPROVEMENT, NoQuestionAnswered) \<and>
      evaluate_performance 7 10 = Inr (Finite 70, EXCELLENT, ExcellentMessage) \<and>
      evaluate_performance 5 10 = Inr (Finite 50, GOOD, GoodMessage) \<and>
      evaluate_performance 4 10 = Inr (Finite 40, NEEDS_IMPROVEMENT, KeepStudyingMessage) \<and>
      evaluate_performance (2 ^ 1024) 1 = Inl OverflowError"
    using evaluate_performance_tiers [of 0 0] evaluate_performance_tiers [of 7 10]
      evaluate_performance_tiers [of 5 10] evaluate_performance_tiers [of 4 10]
      evaluate_performance_tiers [of "2 ^ 1024" 1] rd_overflow
    by (simp add: Let_def rd_7_10 rd_1_2 rd_2_5)
  have "float_mul (6305039478318694 / 2 ^ 53) 100 = Finite 70"
    unfolding float_mul_def rd_times_100 by simp
  then have "evaluate_performance 69999999999999999 100000000000000000 =
      Inr (Finite 70, EXCELLENT, ExcellentMessage)"
    using evaluate_performance_tiers [of 69999999999999999 100000000000000000] rd_below_7_10
    by (simp add: Let_def)
  with five show ?thesis by simp
qed

text \<open>
  The claim as first stated (\<open>P = 100 \<times> C / T\<close>) fails: for 11 correct answers out of
  20 the source computes \<open>0.55 * 100\<close> in doubles and returns 55.00000000000001, one
  step of the grid above 55.
\<close>

theorem evaluate_performance_rounds:
  "evaluate_performance 11 20 = Inr (Finite (55 + 1 / 2 ^ 47), GOOD, GoodMessage) \<and>
   (55 + 1 / 2 ^ 47 :: rat) \<noteq> 100 * 11 / 20"
proof -
  have "round_binary64 (of_int 11 / of_int 20) = round_binary64 (11 / 20)"
    by simp
  moreover have "\<bar>round_binary64 (11 / 20)\<bar> < 2 powi 1024"
    using round_binary64_nearest [of "- 1" "11 / 20" 4953959590107546] by simp
  moreover have "\<bar>55 + 1 / 2 ^ 47 :: rat\<bar> < 2 powi 1024"
    by simp
  ultimately have "evaluate_performance 11 20 =
     Inr (Finite (55 + 1 / 2 ^ 47),
          if 70 \<le> (55 + 1 / 2 ^ 47 :: rat) then EXCELLENT
          else if 50 \<le> (55 + 1 / 2 ^ 47 :: rat) then GOOD else NEEDS_IMPROVEMENT,
          if 70 \<le> (55 + 1 / 2 ^ 47 :: rat) then ExcellentMessage
          else if 50 \<le> (55 + 1 / 2 ^ 47 :: rat) then GoodMessage else KeepStudyingMessage)"
    using rd_11_20 by (intro evaluate_performance_finite) simp_all
  then show ?thesis by simp
qed

section \<open>The session operations\<close>

text \<open>
  C2 (as amended). \<open>next_question\<close> has no guard of its own; the question screen offers
  it only once the current question is answered. In every state, also while the current
  question is unanswered or after the session is finished, it leaves the answer log, the
  correct-count, the question list and the started flag as they are, moves the position
  index one step on, clears the answered flag, and sets the finished flag when the new
  position reaches the number of questions (it never clears that flag).
\<close>

theorem next_question_effect:
  "user_answers (next_question s) = user_answers s \<and>
   correct_answers (next_question s) = correct_answers s \<and>
   questions (next_question s) = questions s \<and>
   quiz_started (next_question s) = quiz_started s \<and>
   current_question (next_question s) = current_question s + 1 \<and>
   question_answered (next_question s) = False \<and>
   quiz_finished (next_question s) =
     (quiz_finished s \<or> int (length (questions s)) \<le> current_question s + 1)"
  by (simp add: next_question_def Let_def)

text \<open>
  The claim as first stated (the whole state unchanged when the current question is
  unanswered) fails: right after the start of a quiz of five questions, with the first
  question unanswered, \<open>next_question\<close> moves the position from 0 to 1.
\<close>

theorem next_question_unguarded:
  "quiz_started (run [sample_start]) \<and>
   \<not> quiz_finished (run [sample_start]) \<and>
   \<not> question_answered (run [sample_start]) \<and>
   current_question (run [sample_start]) = 0 \<and>
   current_question
     (next_question (run [sample_start])) = 1 \<and>
   next_question (run [sample_start])
     \<noteq> run [sample_start]"
  by code_simp

text \<open>
  C5. In every state whose current question is already answered, and in every finished
  state, \<open>answer_question\<close> changes nothing: it returns the state it was given. So of two
  calls in a row, starting with the question unanswered, the second changes nothing:
  exactly one record is added to the log and the correct-count goes up by at most one.
\<close>

theorem answer_question_idempotent:
  "(quiz_finished s \<or> question_answered s \<longrightarrow> answer_question a s = Inr s) \<and>
   (\<not> quiz_finished s \<and> \<not> question_answered s \<and> answer_question a s = Inr s' \<longrightarrow>
      answer_question b s' = Inr s' \<and>
      length (user_answers s') = length (user_answers s) + 1 \<and>
      correct_answers s \<le> correct_answers s' \<and> correct_answers s' \<le> correct_answers s + 1)"
  by (auto simp add: answer_question_def Let_def split: sum.splits)

theorem answer_question_idempotent_witness:
  "question_answered (run [sample_start, AnswerQuestion ''b'']) \<and>
   answer_question ''c'' (run [sample_start, AnswerQuestion ''b'']) =
     Inr (run [sample_start, AnswerQuestion ''b'']) \<and>
   \<not> quiz_finished (run [sample_start]) \<and> \<not> question_answered (run [sample_start]) \<and>
   answer_question ''b'' (run [sample_start]) = Inr (run [sample_start, AnswerQuestion ''b'']) \<and>
   length (user_answers (run [sample_start, AnswerQuestion ''b''])) =
     length (user_answers (run [sample_start])) + 1"
proof -
  have answered: "question_answered (run [sample_start, AnswerQuestion ''b''])"
    by code_simp
  have fresh: "\<not> quiz_finished (run [sample_start]) \<and> \<not> question_answered (run [sample_start]) \<and>
      answer_question ''b'' (run [sample_start]) = Inr (run [sample_start, AnswerQuestion ''b''])"
    by code_simp
  from answer_question_idempotent [of "run [sample_start, AnswerQuestion ''b'']" "''c''"]
    answer_question_idempotent [of "run [sample_start]" "''b''"
      "run [sample_start, AnswerQuestion ''b'']" "''c''"]
    answered fresh
  show ?thesis by simp
qed

text \<open>
  C6. When both pools are empty, \<open>prepare_questions\<close> returns the empty sequence, and
  \<open>start_quiz\<close> returns the state it was given together with the messages it has shown,
  instead of raising: called on the initial state it leaves the quiz not started, with
  no questions and the position 0.
\<close>

theorem start_quiz_empty_pools:
  "prepare_questions N [] [] g = ([], g, [NoQuestionsFound]) \<and>
   start_quiz N [] [] g s = (s, [NoQuestionsFound, CouldNotLoadQuestions]) \<and>
   \<not> quiz_started (fst (start_quiz N [] [] g initialize_session_state)) \<and>
   questions (fst (start_quiz N [] [] g initialize_session_state)) = [] \<and>
   current_question (fst (start_quiz N [] [] g initialize_session_state)) = 0"
  by (simp add: prepare_questions_def start_quiz_def initialize_session_state_def)

text \<open>
  C8. \<open>reset_quiz\<close> returns every state, so every finished one, to the initial state:
  the quiz not started, no questions, an empty answer log, the correct-count and the
  position 0, and all flags of the current question cleared.
\<close>

theorem reset_quiz_clears:
  "reset_quiz s = initialize_session_state \<and>
   \<not> quiz_started (reset_quiz s) \<and> questions (reset_quiz s) = [] \<and>
   user_answers (reset_quiz s) = [] \<and> correct_answers (reset_quiz s) = 0 \<and>
   current_question (reset_quiz s) = 0 \<and> \<not> quiz_finished (reset_quiz s) \<and>
   \<not> question_answered (reset_quiz s) \<and> last_user_answer (reset_quiz s) = None \<and>
   last_answer_correct (reset_quiz s) = None"
  by (simp add: reset_quiz_def initialize_session_state_def)

section \<open>Reachable session states\<close>

text \<open>
  C9. In every state reached from the initial state by a sequence of calls of the four
  operations, if the quiz is started and not finished then the position index is below
  the number of selected questions, so that the lookup \<open>questions[current_question]\<close>
  of \<open>answer_question\<close> is in range and \<open>answer_question\<close> does not raise.
\<close>

theorem position_in_bounds:
  "0 \<le> current_question (run evs) \<and>
   (quiz_started (run evs) \<and> \<not> quiz_finished (run evs) \<longrightarrow>
      current_question (run evs) < int (length (questions (run evs))) \<and>
      py_index (questions (run evs)) (current_question (run evs)) =
        Inr (questions (run evs) ! nat (current_question (run evs))) \<and>
      (\<exists>s'. answer_question a (run evs) = Inr s'))"
proof -
  have ok: "position_ok (run evs)" by (rule position_ok_run)
  then have "0 \<le> current_question (run evs)"
    by (simp add: position_ok_def)
  moreover
  { assume live: "quiz_started (run evs) \<and> \<not> quiz_finished (run evs)"
    with ok have lt: "current_question (run evs) < int (length (questions (run evs)))"
      by (simp add: position_ok_def)
    with \<open>0 \<le> current_question (run evs)\<close>
    have idx: "py_index (questions (run evs)) (current_question (run evs)) =
        Inr (questions (run evs) ! nat (current_question (run evs)))"
      by (simp add: py_index_def)
    then have "\<exists>s'. answer_question a (run evs) = Inr s'"
      by (simp add: answer_question_def Let_def)
    with lt idx
    have "current_question (run evs) < int (length (questions (run evs))) \<and>
      py_index (questions (run evs)) (current_question (run evs)) =
        Inr (questions (run evs) ! nat (current_question (run evs))) \<and>
      (\<exists>s'. answer_question a (run evs) = Inr s')"
      by simp }
  ultimately show ?thesis by blast
qed

theorem position_in_bounds_witness:
  "quiz_started (run sample_session) \<and> \<not> quiz_finished (run sample_session) \<and>
   current_question (run sample_session) = 1 \<and>
   current_question (run sample_session) < int (length (questions (run sample_session))) \<and>
   (\<exists>s'. answer_question ''a'' (run sample_session) = Inr s')"
proof -
  have live: "quiz_started (run sample_session) \<and> \<not> quiz_finished (run sample_session) \<and>
      current_question (run sample_session) = 1"
    by code_simp
  from position_in_bounds [of sample_session "''a''"] live show ?thesis
    by simp
qed

text \<open>
  C10. In every state reached by a sequence of calls of the four operations, the
  correct-count is the number of records of the answer log whose flag is true, and the
  flag of a record is true exactly when the submitted letter equals the key of its
  question as a string (so a capital letter does not match a small one).
\<close>

theorem correct_count_matches_log:
  "correct_answers (run evs) = int (length (filter is_correct (user_answers (run evs)))) \<and>
   (\<forall>r \<in> set (user_answers (run evs)).
      is_correct r = (user_answer r = gabarito (question r)))"
  using log_ok_run [of evs] by (simp add: log_ok_def)

theorem correct_count_matches_log_witness:
  "map user_answer (user_answers (run sample_session)) = [''b'', ''D''] \<and>
   map correct_answer (user_answers (run sample_session)) = [''b'', ''d''] \<and>
   map is_correct (user_answers (run sample_session)) = [True, False] \<and>
   correct_answers (run sample_session) = 1 \<and>
   correct_answers (run sample_session) =
     int (length (filter is_correct (user_answers (run sample_session)))) \<and>
   is_correct (user_answers (run sample_session) ! 1) =
     (user_answer (user_answers (run sample_session) ! 1) =
      gabarito (question (user_answers (run sample_session) ! 1)))"
proof -
  have log: "map user_answer (user_answers (run sample_session)) = [''b'', ''D''] \<and>
      map correct_answer (user_answers (run sample_session)) = [''b'', ''d''] \<and>
      map is_correct (user_answers (run sample_session)) = [True, False] \<and>
      correct_answers (run sample_session) = 1"
    by code_simp
  have "length (user_answers (run sample_session)) = 2"
    using log by (metis length_map length_Cons list.size(3) numeral_2_eq_2)
  then have "user_answers (run sample_session) ! 1 \<in> set (user_answers (run sample_session))"
    by simp
  with correct_count_matches_log [of sample_session] log show ?thesis
    by blast
qed

end
